theory Spec2Isabelle
  imports Complex_Main
begin

section \<open>The form filler of \<^verbatim>\<open>app.py\<close>: field matching and fill dispatch\<close>

text \<open>
  The development embeds the matching core of \<^verbatim>\<open>src/app.py\<close>: the canonical
  vocabulary, \<^verbatim>\<open>_guess_canonical_key\<close>, \<^verbatim>\<open>_best_data_value\<close>,
  \<^verbatim>\<open>_normalize_value\<close> and \<^verbatim>\<open>_fill_discovered\<close>.

  A Python string is modelled as a HOL string whose characters are the code points 0..255
  (\<open>of_char\<close> gives the code point). On these code points the character classes are those
  of Python 3: \<^verbatim>\<open>\d\<close> is \<open>0\<close>..\<open>9\<close> only; \<^verbatim>\<open>\w\<close> is an ASCII letter, a
  digit, the underscore, or one of the 71 alphanumeric code points above 127; and
  \<^verbatim>\<open>str.lower\<close> adds 32 to \<open>A\<close>..\<open>Z\<close> and to the 30 upper-case letters 192..222
  (215, the multiplication sign, is not a letter).
\<close>

subsection \<open>Caller data values\<close>

text \<open>
  The data map is a \<^verbatim>\<open>Dict[str, Any]\<close> decoded from JSON. The code inspects a value
  only through \<^verbatim>\<open>isinstance(v, str)\<close>, \<^verbatim>\<open>isinstance(v, bool)\<close>, equality with
  \<^verbatim>\<open>None\<close> and \<^verbatim>\<open>""\<close>, and \<^verbatim>\<open>str(v)\<close>. \<open>POther r\<close> stands for any other
  value (a float, a list, an object) whose \<^verbatim>\<open>str()\<close> rendering is \<open>r\<close>.
\<close>

datatype pyval = PNone | PBool bool | PInt int | PStr string | POther string

fun str_nat :: "nat \<Rightarrow> string" where
  "str_nat n =
     (if n < 10 then [char_of (48 + n)]
      else str_nat (n div 10) @ [char_of (48 + n mod 10)])"

declare str_nat.simps [simp del]

fun py_str :: "pyval \<Rightarrow> string" where
  "py_str PNone = ''None''"
| "py_str (PBool b) = (if b then ''True'' else ''False'')"
| "py_str (PInt i) = (if i < 0 then CHR ''-'' # str_nat (nat (- i)) else str_nat (nat i))"
| "py_str (PStr s) = s"
| "py_str (POther r) = r"

subsection \<open>Strings and the regular expressions of the rules\<close>

definition lower_char :: "char \<Rightarrow> char" where
  "lower_char c =
     (let n = (of_char c :: nat)
      in if (65 \<le> n \<and> n \<le> 90) \<or> (192 \<le> n \<and> n \<le> 222 \<and> n \<noteq> 215)
         then char_of (n + 32) else c)"

definition lower :: "string \<Rightarrow> string" where
  "lower s = map lower_char s"

definition is_digit :: "char \<Rightarrow> bool" where
  "is_digit c = (let n = (of_char c :: nat) in 48 \<le> n \<and> n \<le> 57)"

text \<open>
  Above 127 the word characters are the letters 170, 181, 186, 192..214, 216..246 and
  248..255, and the numeric characters 178, 179, 185 and 188..190.
\<close>

definition is_word_char :: "char \<Rightarrow> bool" where
  "is_word_char c =
     (let n = (of_char c :: nat)
      in (48 \<le> n \<and> n \<le> 57) \<or> (65 \<le> n \<and> n \<le> 90) \<or> (97 \<le> n \<and> n \<le> 122) \<or> n = 95 \<or>
         n = 170 \<or> n = 178 \<or> n = 179 \<or> n = 181 \<or> n = 185 \<or> n = 186 \<or>
         (188 \<le> n \<and> n \<le> 190) \<or> (192 \<le> n \<and> n \<le> 214) \<or> (216 \<le> n \<and> n \<le> 246) \<or>
         248 \<le> n)"

text \<open>\<open>startswith t p\<close> is \<^verbatim>\<open>t.startswith(p)\<close>.\<close>

fun startswith :: "string \<Rightarrow> string \<Rightarrow> bool" where
  "startswith t [] = True"
| "startswith [] (p # ps) = False"
| "startswith (c # cs) (p # ps) = (c = p \<and> startswith cs ps)"

text \<open>\<open>contains p t\<close> is Python's \<^verbatim>\<open>p in t\<close>: \<open>p\<close> occurs in \<open>t\<close> at some offset.\<close>

fun contains :: "string \<Rightarrow> string \<Rightarrow> bool" where
  "contains p [] = (p = [])"
| "contains p (c # cs) = (startswith (c # cs) p \<or> contains p cs)"

text \<open>
  \<open>word_at t i\<close>: there is a word character at index \<open>i\<close> of \<open>t\<close>. \<open>boundary t i\<close>
  is the regex assertion \<^verbatim>\<open>\b\<close> at position \<open>i\<close>: exactly one of the characters before
  and after the position is a word character (the ends of the string count as non-word).
\<close>

definition word_at :: "string \<Rightarrow> nat \<Rightarrow> bool" where
  "word_at t i = (i < length t \<and> is_word_char (t ! i))"

definition boundary :: "string \<Rightarrow> nat \<Rightarrow> bool" where
  "boundary t i = ((0 < i \<and> word_at t (i - 1)) \<noteq> word_at t i)"

definition matches_at :: "string \<Rightarrow> string \<Rightarrow> nat \<Rightarrow> bool" where
  "matches_at t p i =
     (startswith (drop i t) p \<and> boundary t i \<and> boundary t (i + length p))"

text \<open>
  \<open>re_search alts t\<close> is the truth value of
  \<^verbatim>\<open>re.search(r"\b(a1|a2|...)\b", t)\<close> for literal alternatives \<open>alts\<close>.
\<close>

definition re_search :: "string list \<Rightarrow> string \<Rightarrow> bool" where
  "re_search alts t =
     list_ex (\<lambda>i. list_ex (\<lambda>p. matches_at t p i) alts) [0..<Suc (length t)]"

subsection \<open>Canonical keys and heuristics\<close>

text \<open>
  \<^verbatim>\<open>CANONICAL_KEYS\<close> and \<^verbatim>\<open>ALIASES\<close> are dict literals; a dict iterates in insertion
  order, so each is the list of its items in the order written.
\<close>

definition CANONICAL_KEYS :: "(string \<times> string list) list" where
  "CANONICAL_KEYS =
    [(''first_name'', [''first name'', ''given name'', ''forename'', ''fname'']),
     (''last_name'', [''last name'', ''surname'', ''family name'', ''lname'']),
     (''email'', [''email'', ''e-mail'', ''mail'']),
     (''phone'', [''phone'', ''telephone'', ''mobile'', ''cell'']),
     (''company'', [''company'', ''organization'', ''organisation'', ''employer'']),
     (''address_line1'', [''address'', ''street'', ''address line 1'', ''addr1'']),
     (''city'', [''city'', ''town'']),
     (''state'', [''state'', ''region'', ''province'', ''county'']),
     (''postal_code'', [''zip'', ''zipcode'', ''postal'', ''postcode'']),
     (''country'', [''country'', ''nation'']),
     (''dob'', [''date of birth'', ''birthday'', ''birth date'', ''dob'']),
     (''accept_tos'', [''terms'', ''tos'', ''agree'', ''agreement'', ''privacy''])]"

definition ALIASES :: "(string \<times> string list) list" where
  "ALIASES =
    [(''postal_code'', [''zip'', ''zipcode'', ''post_code'']),
     (''address_line1'', [''address1'', ''street'', ''line1''])]"

text \<open>\<^verbatim>\<open>PHONE_RE.sub("", value)\<close> with \<^verbatim>\<open>PHONE_RE = re.compile(r"[^\d+]")\<close>.\<close>

definition PHONE_RE_sub :: "string \<Rightarrow> string" where
  "PHONE_RE_sub v = filter (\<lambda>c. is_digit c \<or> c = CHR ''+'') v"

subsection \<open>Key inference\<close>

text \<open>The chain of rules of \<^verbatim>\<open>_guess_canonical_key\<close>, on the lowered text.\<close>

definition rule_key :: "string \<Rightarrow> string option" where
  "rule_key t =
     (if contains ''email'' t then Some ''email''
      else if re_search [''zip'', ''postal'', ''postcode''] t then Some ''postal_code''
      else if re_search [''first'', ''given'', ''forename''] t then Some ''first_name''
      else if re_search [''last'', ''surname'', ''family''] t then Some ''last_name''
      else if re_search [''phone'', ''mobile'', ''cell'', ''tel''] t then Some ''phone''
      else if re_search [''company'', ''organization'', ''organisation'', ''employer''] t
        then Some ''company''
      else if re_search [''city'', ''town''] t then Some ''city''
      else if re_search [''state'', ''region'', ''province'', ''county''] t then Some ''state''
      else if re_search [''country'', ''nation''] t then Some ''country''
      else if re_search [''date of birth'', ''birthday'', ''dob''] t then Some ''dob''
      else if re_search [''address'', ''street''] t then Some ''address_line1''
      else if re_search [''terms'', ''privacy'', ''agree'', ''accept''] t then Some ''accept_tos''
      else None)"

text \<open>
  The fallback loop. \<^verbatim>\<open>fuzz.partial_ratio\<close> belongs to the rapidfuzz library, which is
  not part of the repository: the scorer is the parameter \<open>pr\<close>. The loop state is the pair
  \<^verbatim>\<open>(best, best_score)\<close>, initially \<^verbatim>\<open>(None, -1)\<close>.
\<close>

type_synonym scorer = "string \<Rightarrow> string \<Rightarrow> real"

definition fuzzy_step :: "scorer \<Rightarrow> string \<Rightarrow> string \<Rightarrow> string
    \<Rightarrow> string option \<times> real \<Rightarrow> string option \<times> real" where
  "fuzzy_step pr t canon s acc =
     (let score = pr t s in if snd acc < score then (Some canon, score) else acc)"

definition fuzzy_scan :: "scorer \<Rightarrow> string \<Rightarrow> string option \<times> real" where
  "fuzzy_scan pr t =
     fold (\<lambda>(canon, syns) acc. fold (fuzzy_step pr t canon) (canon # syns) acc)
       CANONICAL_KEYS (None, - 1)"

definition fuzzy_key :: "scorer \<Rightarrow> string \<Rightarrow> string option" where
  "fuzzy_key pr t =
     (let (best, best_score) = fuzzy_scan pr t in if 65 \<le> best_score then best else None)"

definition guess_canonical_key :: "scorer \<Rightarrow> string \<Rightarrow> string option" where
  "guess_canonical_key pr text =
     (let t = lower text
      in case rule_key t of Some k \<Rightarrow> Some k | None \<Rightarrow> fuzzy_key pr t)"

subsection \<open>Value resolution and normalization\<close>

type_synonym data = "string \<rightharpoonup> pyval"

text \<open>\<^verbatim>\<open>ALIASES.get(canon_key, [])\<close>.\<close>

definition aliases_of :: "string \<Rightarrow> string list" where
  "aliases_of canon_key = (case map_of ALIASES canon_key of Some as \<Rightarrow> as | None \<Rightarrow> [])"

fun first_alias :: "string list \<Rightarrow> data \<Rightarrow> pyval" where
  "first_alias [] d = PNone"
| "first_alias (a # as) d = (case d a of Some v \<Rightarrow> v | None \<Rightarrow> first_alias as d)"

definition best_data_value :: "string \<Rightarrow> data \<Rightarrow> pyval" where
  "best_data_value canon_key d =
     (case d canon_key of Some v \<Rightarrow> v | None \<Rightarrow> first_alias (aliases_of canon_key) d)"

definition normalize_value :: "string \<Rightarrow> pyval \<Rightarrow> pyval" where
  "normalize_value key v =
     (case v of
        PStr s \<Rightarrow>
          if key = ''phone'' then
            (let digits = PHONE_RE_sub s
             in PStr (if startswith digits ''+'' then digits
                      else if digits \<noteq> [] then ''+'' @ digits else digits))
          else v
      | _ \<Rightarrow> v)"

subsection \<open>Fill dispatch\<close>

text \<open>
  The page is an abstract state \<open>'w\<close>. An element handle offers the four driver calls the
  code makes; each call returns the new page state, or raises with a message (leaving
  some page state behind).
\<close>

datatype action = SelectLabel string | SelectValue string | Check | Uncheck | Fill string

datatype 'w outcome = Done 'w | Raised string 'w

type_synonym 'w element = "action \<Rightarrow> 'w \<Rightarrow> 'w outcome"

text \<open>The \<^verbatim>\<open>meta\<close> dict built by \<^verbatim>\<open>_discover_fields\<close>, with its five keys.\<close>

record meta =
  meta_frame :: string
  meta_tag :: string
  meta_type :: string
  meta_text :: string
  meta_selector_preview :: string

record FieldMatch =
  frame :: string
  tag :: string
  type :: string
  label_text :: string
  canonical_key :: "string option"
  value_used :: "string option"
  selector_preview :: string
  filled :: bool

text \<open>
  The actions inside the \<^verbatim>\<open>try\<close> block once the guard has passed, on the normalized
  value: the \<^verbatim>\<open>select\<close> branch retries by option value when selecting by label raises.
\<close>

definition dispatch :: "'w element \<Rightarrow> string \<Rightarrow> string \<Rightarrow> pyval \<Rightarrow> 'w \<Rightarrow> 'w outcome" where
  "dispatch el tg typ v w =
     (if tg = ''select'' then
        (case el (SelectLabel (py_str v)) w of
           Done w' \<Rightarrow> Done w'
         | Raised e w' \<Rightarrow> el (SelectValue (py_str v)) w')
      else if typ = ''checkbox'' \<or> typ = ''radio'' then
        (let should = (case v of PBool b \<Rightarrow> b | _ \<Rightarrow> True)
         in if should then el Check w else el Uncheck w)
      else el (Fill (py_str v)) w)"

text \<open>
  One iteration of the loop of \<^verbatim>\<open>_fill_discovered\<close>: the state is the log list and the
  page, the result is the appended \<^verbatim>\<open>FieldMatch\<close>.
\<close>

definition fill_one :: "scorer \<Rightarrow> data \<Rightarrow> 'f \<times> 'w element \<times> meta
    \<Rightarrow> string list \<times> 'w \<Rightarrow> FieldMatch \<times> string list \<times> 'w" where
  "fill_one pr d item st =
     (case item of (f, el, m) \<Rightarrow>
      case st of (logs, w) \<Rightarrow>
       let canon = guess_canonical_key pr (meta_text m);
           truthy = (case canon of None \<Rightarrow> False | Some k \<Rightarrow> k \<noteq> []);
           v = (if truthy then best_data_value (the canon) d else PNone);
           (fl, vu, logs', w') =
             (if truthy \<and> v \<noteq> PNone \<and> v \<noteq> PStr [] then
                (let v' = normalize_value (the canon) v
                 in case dispatch el (meta_tag m) (lower (meta_type m)) v' w of
                      Done w' \<Rightarrow> (True, Some (py_str v'), logs, w')
                    | Raised e w' \<Rightarrow> (False, None, logs @ [''Fill error: '' @ e], w'))
              else (False, None, logs, w))
       in (\<lparr> frame = meta_frame m, tag = meta_tag m, type = meta_type m,
              label_text = meta_text m, canonical_key = canon, value_used = vu,
              selector_preview = meta_selector_preview m, filled = fl \<rparr>,
           logs', w'))"

fun fill_discovered :: "scorer \<Rightarrow> ('f \<times> 'w element \<times> meta) list \<Rightarrow> data
    \<Rightarrow> string list \<Rightarrow> 'w \<Rightarrow> FieldMatch list \<times> string list \<times> 'w" where
  "fill_discovered pr [] d logs w = ([], logs, w)"
| "fill_discovered pr (item # items) d logs w =
     (case fill_one pr d item (logs, w) of (fm, logs', w') \<Rightarrow>
      case fill_discovered pr items d logs' w' of (fms, logs'', w'') \<Rightarrow>
        (fm # fms, logs'', w''))"

subsection \<open>Auxiliary definitions for the statements\<close>

text \<open>
  The comparands of the fallback loop in iteration order: for each canonical key, the key
  itself and then its synonyms (\<^verbatim>\<open>[canon] + syns\<close>), each paired with the key.
\<close>

definition comparands :: "(string \<times> string) list" where
  "comparands = concat (map (\<lambda>(canon, syns). map (Pair canon) (canon # syns)) CANONICAL_KEYS)"

definition flat_step :: "scorer \<Rightarrow> string \<Rightarrow> string \<times> string
    \<Rightarrow> string option \<times> real \<Rightarrow> string option \<times> real" where
  "flat_step pr t c acc = fuzzy_step pr t (fst c) (snd c) acc"

text \<open>
  The pairs of a canonical key and one of its synonyms, without the key's own name, and
  the greatest score of a signature over a list of pairs (\<open>- 1\<close>, the initial
  \<^verbatim>\<open>best_score\<close>, when the list is empty).
\<close>

definition synonym_pairs :: "(string \<times> string) list" where
  "synonym_pairs = concat (map (\<lambda>(canon, syns). map (Pair canon) syns) CANONICAL_KEYS)"

definition top_score :: "scorer \<Rightarrow> string \<Rightarrow> (string \<times> string) list \<Rightarrow> real" where
  "top_score pr t cs = fold (\<lambda>c m. max m (pr t (snd c))) cs (- 1)"

text \<open>
  \<open>syn_ok k s\<close> is a decidable certificate that the signature \<open>s\<close> is inferred as \<open>k\<close>:
  either a rule answers \<open>k\<close>, or no rule fires and the comparands having \<open>lower s\<close> as a
  substring, or being a substring of it, exist and all belong to \<open>k\<close>.
\<close>

definition syn_ok :: "string \<Rightarrow> string \<Rightarrow> bool" where
  "syn_ok k s =
     (let t = lower s
      in rule_key t = Some k \<or>
         (rule_key t = None \<and> t \<noteq> [] \<and>
          list_ex (\<lambda>c. fst c = k \<and> (contains t (snd c) \<or> contains (snd c) t)) comparands \<and>
          list_all (\<lambda>c. fst c = k \<or> \<not> (contains t (snd c) \<or> contains (snd c) t)) comparands))"

text \<open>
  A scorer with the two properties of a partial ratio that the statements rely on (at most
  100, and 100 exactly when one string occurs in the other), used to run the model.
\<close>

definition sample_scorer :: scorer where
  "sample_scorer a b = (if contains a b \<or> contains b a then 100 else 0)"

text \<open>A signature with two non-ASCII letters (233 is e with acute accent).\<close>

definition telephone_accented :: string where
  "telephone_accented = ''t'' @ [char_of (233 :: nat)] @ ''l'' @ [char_of (233 :: nat)] @ ''phone''"

text \<open>
  Two element handles over a page that is the list of driver calls made so far: one performs
  every call, the other raises on every call.
\<close>

definition recording_element :: "action list element" where
  "recording_element a w = Done (w @ [a])"

definition failing_element :: "action list element" where
  "failing_element a w = Raised ''detached'' w"

text \<open>The record appended for a control with metadata \<open>m\<close>.\<close>

definition field_match :: "meta \<Rightarrow> string option \<Rightarrow> string option \<Rightarrow> bool \<Rightarrow> FieldMatch" where
  "field_match m canon vu fl =
     \<lparr> frame = meta_frame m, tag = meta_tag m, type = meta_type m,
       label_text = meta_text m, canonical_key = canon, value_used = vu,
       selector_preview = meta_selector_preview m, filled = fl \<rparr>"

text \<open>Sample controls: an e-mail text input, a terms checkbox and a phone input.\<close>

definition email_meta :: meta where
  "email_meta = \<lparr> meta_frame = ''main'', meta_tag = ''input'', meta_type = ''text'',
     meta_text = ''Email Address'', meta_selector_preview = ''<input name=email>'' \<rparr>"

definition terms_meta :: meta where
  "terms_meta = \<lparr> meta_frame = ''main'', meta_tag = ''input'', meta_type = ''checkbox'',
     meta_text = ''I agree to the Terms'', meta_selector_preview = ''<input type=checkbox>'' \<rparr>"

definition phone_meta :: meta where
  "phone_meta = \<lparr> meta_frame = ''main'', meta_tag = ''input'', meta_type = ''tel'',
     meta_text = ''Phone'', meta_selector_preview = ''<input type=tel>'' \<rparr>"

section \<open>Key inference\<close>

subsection \<open>The fallback loop returns the first maximum\<close>

lemma fold_inner_flat:
  "fold (fuzzy_step pr t canon) xs acc = fold (flat_step pr t) (map (Pair canon) xs) acc"
  by (induction xs arbitrary: acc) (simp_all add: flat_step_def)

lemma fold_outer_flat:
  "fold (\<lambda>(canon, syns) acc. fold (fuzzy_step pr t canon) (canon # syns) acc) ks acc =
   fold (flat_step pr t)
     (concat (map (\<lambda>(canon, syns). map (Pair canon) (canon # syns)) ks)) acc"
proof (induction ks arbitrary: acc)
  case Nil
  show ?case by simp
next
  case (Cons k ks)
  obtain canon syns where k: "k = (canon, syns)" by (cases k)
  show ?case
    unfolding k using Cons.IH fold_inner_flat [of pr t canon "canon # syns"]
    by simp
qed

lemma fuzzy_scan_flat: "fuzzy_scan pr t = fold (flat_step pr t) comparands (None, - 1)"
  unfolding fuzzy_scan_def comparands_def by (rule fold_outer_flat)

lemma flat_scan_cases:
  "fold (flat_step pr t) cs (b, bs) = (b', bs') \<Longrightarrow>
     (b' = b \<and> bs' = bs \<and> (\<forall>c \<in> set cs. pr t (snd c) \<le> bs)) \<or>
     (\<exists>i < length cs. b' = Some (fst (cs ! i)) \<and> bs' = pr t (snd (cs ! i)) \<and> bs < bs' \<and>
        (\<forall>j < length cs. pr t (snd (cs ! j)) \<le> bs') \<and>
        (\<forall>j < i. pr t (snd (cs ! j)) < bs'))"
proof (induction cs arbitrary: b' bs' rule: rev_induct)
  case Nil
  then show ?case by simp
next
  case (snoc c cs)
  obtain b1 bs1 where mid: "fold (flat_step pr t) cs (b, bs) = (b1, bs1)"
    by (cases "fold (flat_step pr t) cs (b, bs)")
  from snoc.IH [OF mid] have ih:
    "(b1 = b \<and> bs1 = bs \<and> (\<forall>c \<in> set cs. pr t (snd c) \<le> bs)) \<or>
     (\<exists>i < length cs. b1 = Some (fst (cs ! i)) \<and> bs1 = pr t (snd (cs ! i)) \<and> bs < bs1 \<and>
        (\<forall>j < length cs. pr t (snd (cs ! j)) \<le> bs1) \<and>
        (\<forall>j < i. pr t (snd (cs ! j)) < bs1))" .
  have below: "\<forall>j < length cs. pr t (snd (cs ! j)) \<le> bs1"
    using ih by (auto simp: all_set_conv_all_nth)
  have ge: "bs \<le> bs1" using ih by auto
  from snoc.prems mid have last: "(b', bs') = flat_step pr t c (b1, bs1)" by simp
  show ?case
  proof (cases "bs1 < pr t (snd c)")
    case True
    with last have r: "b' = Some (fst c)" "bs' = pr t (snd c)"
      by (simp_all add: flat_step_def fuzzy_step_def)
    have "length cs < length (cs @ [c])" by simp
    moreover have "b' = Some (fst ((cs @ [c]) ! length cs))" using r by simp
    moreover have "bs' = pr t (snd ((cs @ [c]) ! length cs))" using r by simp
    moreover have "bs < bs'" using ge True r by simp
    moreover have "\<forall>j < length (cs @ [c]). pr t (snd ((cs @ [c]) ! j)) \<le> bs'"
      using below True r by (auto simp: nth_append less_Suc_eq)
    moreover have "\<forall>j < length cs. pr t (snd ((cs @ [c]) ! j)) < bs'"
      using below True r by (auto simp: nth_append)
    ultimately show ?thesis by blast
  next
    case False
    with last have r: "b' = b1" "bs' = bs1"
      by (simp_all add: flat_step_def fuzzy_step_def)
    from ih show ?thesis
    proof
      assume a: "b1 = b \<and> bs1 = bs \<and> (\<forall>c \<in> set cs. pr t (snd c) \<le> bs)"
      then have "\<forall>x \<in> set (cs @ [c]). pr t (snd x) \<le> bs" using False by auto
      with a r show ?thesis by blast
    next
      assume "\<exists>i < length cs. b1 = Some (fst (cs ! i)) \<and> bs1 = pr t (snd (cs ! i)) \<and> bs < bs1 \<and>
        (\<forall>j < length cs. pr t (snd (cs ! j)) \<le> bs1) \<and>
        (\<forall>j < i. pr t (snd (cs ! j)) < bs1)"
      then obtain i where i: "i < length cs" "b1 = Some (fst (cs ! i))"
        "bs1 = pr t (snd (cs ! i))" "bs < bs1"
        "\<forall>j < i. pr t (snd (cs ! j)) < bs1" by blast
      have "i < length (cs @ [c])" using i by simp
      moreover have "b' = Some (fst ((cs @ [c]) ! i))" using i r by (simp add: nth_append)
      moreover have "bs' = pr t (snd ((cs @ [c]) ! i))" using i r by (simp add: nth_append)
      moreover have "bs < bs'" using i r by simp
      moreover have "\<forall>j < length (cs @ [c]). pr t (snd ((cs @ [c]) ! j)) \<le> bs'"
        using below False r by (auto simp: nth_append less_Suc_eq)
      moreover have "\<forall>j < i. pr t (snd ((cs @ [c]) ! j)) < bs'"
        using i r by (auto simp: nth_append)
      ultimately show ?thesis by blast
    qed
  qed
qed

lemma fuzzy_key_Some:
  assumes "fuzzy_key pr t = Some k"
  shows "\<exists>i < length comparands. k = fst (comparands ! i) \<and>
           65 \<le> pr t (snd (comparands ! i)) \<and>
           (\<forall>j < length comparands. pr t (snd (comparands ! j)) \<le> pr t (snd (comparands ! i))) \<and>
           (\<forall>j < i. pr t (snd (comparands ! j)) < pr t (snd (comparands ! i)))"
proof -
  obtain b bs where sc: "fold (flat_step pr t) comparands (None, - 1) = (b, bs)"
    by (cases "fold (flat_step pr t) comparands (None, - 1)")
  from assms have res: "65 \<le> bs" "b = Some k"
    by (auto simp: fuzzy_key_def fuzzy_scan_flat sc split: if_splits)
  from flat_scan_cases [OF sc] res show ?thesis by auto
qed

lemma fuzzy_key_None:
  assumes "fuzzy_key pr t = None"
  shows "\<forall>c \<in> set comparands. pr t (snd c) < 65"
proof -
  obtain b bs where sc: "fold (flat_step pr t) comparands (None, - 1) = (b, bs)"
    by (cases "fold (flat_step pr t) comparands (None, - 1)")
  have cases: "(b = None \<and> bs = - 1 \<and> (\<forall>c \<in> set comparands. pr t (snd c) \<le> - 1)) \<or>
     (\<exists>i < length comparands. b = Some (fst (comparands ! i)) \<and>
        (\<forall>j < length comparands. pr t (snd (comparands ! j)) \<le> bs))"
    using flat_scan_cases [OF sc] by blast
  from assms have "bs < 65 \<or> b = None"
    by (auto simp: fuzzy_key_def fuzzy_scan_flat sc split: if_splits)
  with cases have "bs < 65" by auto
  moreover have "\<forall>j < length comparands. pr t (snd (comparands ! j)) \<le> bs"
    using cases by (auto simp: all_set_conv_all_nth)
  ultimately have small: "\<forall>j < length comparands. pr t (snd (comparands ! j)) < 65"
    by fastforce
  show ?thesis
  proof
    fix c assume "c \<in> set comparands"
    then obtain j where "j < length comparands" "comparands ! j = c"
      by (auto simp: in_set_conv_nth)
    with small show "pr t (snd c) < 65" by auto
  qed
qed

subsection \<open>Synonyms are inferred as their key\<close>

lemma sample_scorer_le: "sample_scorer a b \<le> 100"
  by (simp add: sample_scorer_def)

lemma sample_scorer_eq: "(sample_scorer a b = 100) = (contains a b \<or> contains b a)"
  by (simp add: sample_scorer_def)

lemma comparands_nonempty: "list_all (\<lambda>c. fst c \<noteq> [] \<and> snd c \<noteq> []) comparands"
  by code_simp

lemma all_syn_ok: "list_all (\<lambda>(k, syns). syns \<noteq> [] \<and> list_all (syn_ok k) syns) CANONICAL_KEYS"
  by code_simp

lemma fuzzy_key_unique_perfect:
  assumes bound: "\<forall>c \<in> set comparands. pr t (snd c) \<le> 100"
    and hit: "\<exists>c \<in> set comparands. fst c = k \<and> pr t (snd c) = 100"
    and others: "\<forall>c \<in> set comparands. fst c \<noteq> k \<longrightarrow> pr t (snd c) < 100"
  shows "fuzzy_key pr t = Some k"
proof (cases "fuzzy_key pr t")
  case None
  from fuzzy_key_None [OF None] hit show ?thesis by fastforce
next
  case (Some k')
  from fuzzy_key_Some [OF Some] obtain i where i: "i < length comparands"
    "k' = fst (comparands ! i)"
    "\<forall>j < length comparands. pr t (snd (comparands ! j)) \<le> pr t (snd (comparands ! i))"
    by blast
  from hit obtain c where c: "c \<in> set comparands" "fst c = k" "pr t (snd c) = 100" by blast
  then obtain j where j: "j < length comparands" "comparands ! j = c"
    by (auto simp: in_set_conv_nth)
  with i(3) c(3) have "100 \<le> pr t (snd (comparands ! i))" by fastforce
  moreover have "comparands ! i \<in> set comparands" using i(1) by simp
  ultimately have "fst (comparands ! i) = k" using others by fastforce
  with i(2) Some show ?thesis by simp
qed

lemma guess_of_syn_ok:
  assumes le: "\<And>a b. a \<noteq> [] \<Longrightarrow> b \<noteq> [] \<Longrightarrow> pr a b \<le> 100"
    and eq: "\<And>a b. a \<noteq> [] \<Longrightarrow> b \<noteq> [] \<Longrightarrow> (pr a b = 100) = (contains a b \<or> contains b a)"
    and ok: "syn_ok k s"
  shows "guess_canonical_key pr s = Some k"
proof (cases "rule_key (lower s) = Some k")
  case True
  then show ?thesis by (simp add: guess_canonical_key_def)
next
  case False
  with ok have none: "rule_key (lower s) = None" and ne: "lower s \<noteq> []"
    and ex: "list_ex (\<lambda>c. fst c = k \<and> (contains (lower s) (snd c) \<or> contains (snd c) (lower s))) comparands"
    and al: "list_all (\<lambda>c. fst c = k \<or> \<not> (contains (lower s) (snd c) \<or> contains (snd c) (lower s))) comparands"
    by (auto simp: syn_ok_def Let_def)
  have cne: "\<And>c. c \<in> set comparands \<Longrightarrow> snd c \<noteq> []"
    using comparands_nonempty by (auto simp: list_all_iff)
  have "\<forall>c \<in> set comparands. pr (lower s) (snd c) \<le> 100"
    using le ne cne by blast
  moreover have "\<exists>c \<in> set comparands. fst c = k \<and> pr (lower s) (snd c) = 100"
    using ex eq [OF ne cne] by (auto simp: list_ex_iff)
  moreover have "\<forall>c \<in> set comparands. fst c \<noteq> k \<longrightarrow> pr (lower s) (snd c) < 100"
  proof (intro ballI impI)
    fix c assume c: "c \<in> set comparands" "fst c \<noteq> k"
    with al have "\<not> (contains (lower s) (snd c) \<or> contains (snd c) (lower s))"
      by (auto simp: list_all_iff)
    with eq [OF ne cne [OF c(1)]] have "pr (lower s) (snd c) \<noteq> 100" by simp
    with le [OF ne cne [OF c(1)]] show "pr (lower s) (snd c) < 100" by simp
  qed
  ultimately have "fuzzy_key pr (lower s) = Some k" by (rule fuzzy_key_unique_perfect)
  with none show ?thesis by (simp add: guess_canonical_key_def)
qed

text \<open>
  Claim C1. All 12 canonical keys have a non-empty synonym list, and
  \<^verbatim>\<open>_guess_canonical_key\<close> on a signature equal to any synonym of a key returns that
  key, by a rule or by the fallback. The scorer is any function with the two properties of
  \<^verbatim>\<open>fuzz.partial_ratio\<close> on non-empty strings: its score is at most 100, and it is 100
  exactly when one of the two strings occurs in the other.
\<close>

theorem synonym_inference_exact:
  assumes le: "\<And>a b. a \<noteq> [] \<Longrightarrow> b \<noteq> [] \<Longrightarrow> pr a b \<le> 100"
    and eq: "\<And>a b. a \<noteq> [] \<Longrightarrow> b \<noteq> [] \<Longrightarrow> (pr a b = 100) = (contains a b \<or> contains b a)"
  shows "length CANONICAL_KEYS = 12 \<and>
         (\<forall>(k, syns) \<in> set CANONICAL_KEYS.
            syns \<noteq> [] \<and> (\<forall>s \<in> set syns. guess_canonical_key pr s = Some k))"
proof
  show "length CANONICAL_KEYS = 12" by (simp add: CANONICAL_KEYS_def)
next
  show "\<forall>(k, syns) \<in> set CANONICAL_KEYS.
          syns \<noteq> [] \<and> (\<forall>s \<in> set syns. guess_canonical_key pr s = Some k)"
  proof (intro ballI, clarify)
    fix k syns assume "(k, syns) \<in> set CANONICAL_KEYS"
    with all_syn_ok have s: "syns \<noteq> []" "\<forall>s \<in> set syns. syn_ok k s"
      by (auto simp: list_all_iff)
    show "syns \<noteq> [] \<and> (\<forall>s \<in> set syns. guess_canonical_key pr s = Some k)"
      using s guess_of_syn_ok [OF le eq] by blast
  qed
qed

theorem synonym_inference_exact_witness:
  "guess_canonical_key sample_scorer ''zipcode'' = Some ''postal_code'' \<and>
   guess_canonical_key sample_scorer ''telephone'' = Some ''phone'' \<and>
   guess_canonical_key sample_scorer ''mail'' = Some ''email'' \<and>
   guess_canonical_key sample_scorer ''agreement'' = Some ''accept_tos''"
  using synonym_inference_exact [of sample_scorer, OF sample_scorer_le sample_scorer_eq]
  by (simp add: CANONICAL_KEYS_def)

subsection \<open>The comparands of the fallback loop\<close>

lemma top_score_le:
  fixes pr :: scorer
  shows "\<forall>c \<in> set cs. pr t (snd c) \<le> m \<Longrightarrow> b \<le> m \<Longrightarrow>
    fold (\<lambda>c m. max m (pr t (snd c))) cs b \<le> m"
proof (induction cs arbitrary: b)
  case Nil
  then show ?case by simp
next
  case (Cons a cs)
  have "max b (pr t (snd a)) \<le> m" using Cons.prems by simp
  moreover have "\<forall>c \<in> set cs. pr t (snd c) \<le> m" using Cons.prems by simp
  ultimately have "fold (\<lambda>c m. max m (pr t (snd c))) cs (max b (pr t (snd a))) \<le> m"
    using Cons.IH by blast
  then show ?case by simp
qed

lemma comparands_count: "length comparands = 56 \<and> length synonym_pairs = 44"
  by (simp add: comparands_def synonym_pairs_def CANONICAL_KEYS_def)

lemma accept_no_synonym:
  "list_all (\<lambda>c. \<not> (contains (lower ''accept_'') (snd c) \<or> contains (snd c) (lower ''accept_'')))
     synonym_pairs"
  by code_simp

text \<open>
  Letters above 127 are word characters: an accented letter joins its neighbours into one
  word, so no rule fires inside \<open>telephone_accented\<close>, and \<^verbatim>\<open>str.lower\<close> lowers
  them (201 to 233), while 215 is neither a word character nor changed.
\<close>

lemma accented_letters_join_words:
  "rule_key (lower (telephone_accented @ '' company'')) = Some ''company'' \<and>
   lower (''T'' @ [char_of (201 :: nat)] @ ''L'') = ''t'' @ [char_of (233 :: nat)] @ ''l'' \<and>
   \<not> is_word_char (char_of (215 :: nat)) \<and>
   lower_char (char_of (215 :: nat)) = char_of (215 :: nat)"
  by code_simp

text \<open>
  The claim as stated takes the maximum over the pairs of a canonical key and one of its
  synonyms. The loop iterates over \<^verbatim>\<open>[canon] + syns\<close>: the name of the key is a
  comparand too. On the signature \<^verbatim>\<open>accept_\<close> no rule fires (the underscore is a word
  character, so \<^verbatim>\<open>accept\<close> does not end at a word boundary), no synonym of any key
  occurs in it or contains it, so the greatest score over all (key, synonym) pairs is below
  65, and yet \<^verbatim>\<open>accept_tos\<close> is returned, through the key name \<^verbatim>\<open>accept_tos\<close>.
\<close>

theorem guess_fuzzy_argmax_counterexample:
  "rule_key (lower ''accept_'') = None \<and>
   top_score sample_scorer (lower ''accept_'') synonym_pairs < 65 \<and>
   guess_canonical_key sample_scorer ''accept_'' = Some ''accept_tos''"
proof -
  have none: "rule_key (lower ''accept_'') = None" by code_simp
  have "\<forall>c \<in> set synonym_pairs. sample_scorer (lower ''accept_'') (snd c) \<le> 0"
    using accept_no_synonym by (auto simp: list_all_iff sample_scorer_def)
  then have "top_score sample_scorer (lower ''accept_'') synonym_pairs \<le> 0"
    unfolding top_score_def by (rule top_score_le) simp
  then have low: "top_score sample_scorer (lower ''accept_'') synonym_pairs < 65" by simp
  have "syn_ok ''accept_tos'' ''accept_''" by code_simp
  then have "guess_canonical_key sample_scorer ''accept_'' = Some ''accept_tos''"
    by (rule guess_of_syn_ok [of sample_scorer, OF sample_scorer_le sample_scorer_eq])
  with none low show ?thesis by simp
qed

text \<open>
  Claim C2, as amended. The comparands of a canonical key are its own name followed by its
  synonyms, as the loop has them (56 comparands: 12 key names and 44 synonyms). When no rule
  fires on the lowered signature, \<^verbatim>\<open>_guess_canonical_key\<close> returns a key only if the
  greatest score over all comparands is at least 65, and then it is the key of a comparand
  attaining that greatest score; among comparands with the greatest score the first in
  iteration order decides (every earlier comparand scores strictly less). When it returns
  \<^verbatim>\<open>None\<close>, every score is below 65. This holds for every scorer and every
  signature, accented letters included.
\<close>

theorem guess_fuzzy_argmax:
  assumes "rule_key (lower text) = None"
  shows "case guess_canonical_key pr text of
           None \<Rightarrow> \<forall>c \<in> set comparands. pr (lower text) (snd c) < 65
         | Some k \<Rightarrow>
             \<exists>i < length comparands. k = fst (comparands ! i) \<and>
               65 \<le> pr (lower text) (snd (comparands ! i)) \<and>
               (\<forall>j < length comparands.
                  pr (lower text) (snd (comparands ! j)) \<le> pr (lower text) (snd (comparands ! i))) \<and>
               (\<forall>j < i.
                  pr (lower text) (snd (comparands ! j)) < pr (lower text) (snd (comparands ! i)))"
proof (cases "fuzzy_key pr (lower text)")
  case None
  then show ?thesis
    using assms fuzzy_key_None [OF None] by (simp add: guess_canonical_key_def)
next
  case (Some k)
  then show ?thesis
    using assms fuzzy_key_Some [OF Some] by (simp add: guess_canonical_key_def)
qed

theorem guess_fuzzy_argmax_witness:
  "rule_key (lower ''zipcode'') = None \<and>
   (case guess_canonical_key sample_scorer ''zipcode'' of
      None \<Rightarrow> \<forall>c \<in> set comparands. sample_scorer (lower ''zipcode'') (snd c) < 65
    | Some k \<Rightarrow>
        \<exists>i < length comparands. k = fst (comparands ! i) \<and>
          65 \<le> sample_scorer (lower ''zipcode'') (snd (comparands ! i)) \<and>
          (\<forall>j < length comparands.
             sample_scorer (lower ''zipcode'') (snd (comparands ! j))
               \<le> sample_scorer (lower ''zipcode'') (snd (comparands ! i))) \<and>
          (\<forall>j < i.
             sample_scorer (lower ''zipcode'') (snd (comparands ! j))
               < sample_scorer (lower ''zipcode'') (snd (comparands ! i)))) \<and>
   rule_key (lower telephone_accented) = None \<and>
   (case guess_canonical_key sample_scorer telephone_accented of
      None \<Rightarrow> \<forall>c \<in> set comparands. sample_scorer (lower telephone_accented) (snd c) < 65
    | Some k \<Rightarrow>
        \<exists>i < length comparands. k = fst (comparands ! i) \<and>
          65 \<le> sample_scorer (lower telephone_accented) (snd (comparands ! i)) \<and>
          (\<forall>j < length comparands.
             sample_scorer (lower telephone_accented) (snd (comparands ! j))
               \<le> sample_scorer (lower telephone_accented) (snd (comparands ! i))) \<and>
          (\<forall>j < i.
             sample_scorer (lower telephone_accented) (snd (comparands ! j))
               < sample_scorer (lower telephone_accented) (snd (comparands ! i))))"
proof -
  have h1: "rule_key (lower ''zipcode'') = None" by code_simp
  have h2: "rule_key (lower telephone_accented) = None" by code_simp
  show ?thesis
    using h1 guess_fuzzy_argmax [OF h1, of sample_scorer]
      h2 guess_fuzzy_argmax [OF h2, of sample_scorer]
    by simp
qed

section \<open>Value resolution and normalization\<close>

lemma startswith_plus: "startswith s ''+'' = (s \<noteq> [] \<and> hd s = CHR ''+'')"
  by (cases s) auto

lemma PHONE_RE_sub_idem: "PHONE_RE_sub (PHONE_RE_sub s) = PHONE_RE_sub s"
  by (simp add: PHONE_RE_sub_def)

lemma PHONE_RE_sub_Nil: "PHONE_RE_sub [] = []"
  by (simp add: PHONE_RE_sub_def)

lemma PHONE_RE_sub_plus: "PHONE_RE_sub (CHR ''+'' # s) = CHR ''+'' # PHONE_RE_sub s"
  by (simp add: PHONE_RE_sub_def)

lemma normalize_phone_str:
  "normalize_value ''phone'' (PStr s) =
     PStr (let kept = PHONE_RE_sub s
           in if kept \<noteq> [] \<and> hd kept \<noteq> CHR ''+'' then CHR ''+'' # kept else kept)"
  by (auto simp: normalize_value_def Let_def startswith_plus)


text \<open>
  The claim as stated fails: \<^verbatim>\<open>"+"\<close> contains no digit and normalizes to \<^verbatim>\<open>"+"\<close>, not
  to the empty string, and in \<^verbatim>\<open>"1+2"\<close> a \<open>+\<close> that is not leading is kept.
\<close>

theorem phone_normalization_counterexample:
  "filter is_digit ''+'' = [] \<and>
   normalize_value ''phone'' (PStr ''+'') = PStr ''+'' \<and>
   normalize_value ''phone'' (PStr ''1+2'') = PStr ''+1+2''"
  by code_simp

text \<open>
  Claim C3, as amended. For every string normalized under the key \<^verbatim>\<open>phone\<close>,
  \<^verbatim>\<open>_normalize_value\<close> removes every character except digits and \<open>+\<close> (every \<open>+\<close>
  is kept, wherever it stands) and prepends \<open>+\<close> exactly when what remains is non-empty
  and does not start with \<open>+\<close>. So a non-empty result starts with \<open>+\<close>, the digits are
  those of the input in order, and the result is empty exactly when the input contains
  neither a digit nor a \<open>+\<close>.
\<close>

theorem phone_normalization:
  "\<exists>r. normalize_value ''phone'' (PStr s) = PStr r \<and>
     (r = filter (\<lambda>c. is_digit c \<or> c = CHR ''+'') s \<or>
      r = CHR ''+'' # filter (\<lambda>c. is_digit c \<or> c = CHR ''+'') s) \<and>
     (r = filter (\<lambda>c. is_digit c \<or> c = CHR ''+'') s \<longleftrightarrow>
        filter (\<lambda>c. is_digit c \<or> c = CHR ''+'') s = [] \<or>
        hd (filter (\<lambda>c. is_digit c \<or> c = CHR ''+'') s) = CHR ''+'') \<and>
     (r \<noteq> [] \<longrightarrow> hd r = CHR ''+'') \<and>
     (r = [] \<longleftrightarrow> (\<forall>c \<in> set s. \<not> is_digit c \<and> c \<noteq> CHR ''+'')) \<and>
     filter is_digit r = filter is_digit s"
proof -
  define kept where "kept = filter (\<lambda>c. is_digit c \<or> c = CHR ''+'') s"
  define r where "r = (if kept \<noteq> [] \<and> hd kept \<noteq> CHR ''+'' then CHR ''+'' # kept else kept)"
  have plus: "\<not> is_digit CHR ''+''" by code_simp
  have dig: "filter is_digit kept = filter is_digit s"
    unfolding kept_def by (induction s) auto
  have n: "normalize_value ''phone'' (PStr s) = PStr r"
    using normalize_phone_str [of s] by (simp add: PHONE_RE_sub_def Let_def r_def kept_def)
  have a: "r = kept \<or> r = CHR ''+'' # kept" by (simp add: r_def)
  have a2: "r = kept \<longleftrightarrow> kept = [] \<or> hd kept = CHR ''+''" by (auto simp: r_def)
  have b: "r \<noteq> [] \<longrightarrow> hd r = CHR ''+''" by (simp add: r_def)
  have c: "r = [] \<longleftrightarrow> (\<forall>c \<in> set s. \<not> is_digit c \<and> c \<noteq> CHR ''+'')"
    by (auto simp: r_def kept_def filter_empty_conv)
  have d: "filter is_digit r = filter is_digit s"
    using dig plus by (simp add: r_def)
  from n a a2 b c d show ?thesis unfolding kept_def by (intro exI [of _ r] conjI)
qed

theorem phone_normalization_witness:
  "normalize_value ''phone'' (PStr ''(415) 555-0117'') = PStr ''+4155550117'' \<and>
   hd ''+4155550117'' = CHR ''+'' \<and>
   filter is_digit ''+4155550117'' = filter is_digit ''(415) 555-0117''"
proof -
  have e: "normalize_value ''phone'' (PStr ''(415) 555-0117'') = PStr ''+4155550117''"
    by code_simp
  from phone_normalization [of "''(415) 555-0117''"] obtain r where
    r: "normalize_value ''phone'' (PStr ''(415) 555-0117'') = PStr r"
       "r \<noteq> [] \<longrightarrow> hd r = CHR ''+''"
       "filter is_digit r = filter is_digit ''(415) 555-0117''"
    by blast
  from r(1) e have "r = ''+4155550117''" by simp
  with r(2,3) e show ?thesis by simp
qed

text \<open>
  Claim C8. Phone normalization is idempotent on every value; a \<open>+\<close> followed by digits
  only is returned unchanged; \<^verbatim>\<open>"+1 415 555 0117"\<close> normalizes to \<^verbatim>\<open>"+14155550117"\<close>.
\<close>

theorem phone_idempotent:
  "normalize_value ''phone'' (normalize_value ''phone'' v) = normalize_value ''phone'' v \<and>
   (list_all is_digit ds \<longrightarrow>
      normalize_value ''phone'' (PStr (CHR ''+'' # ds)) = PStr (CHR ''+'' # ds)) \<and>
   normalize_value ''phone'' (PStr ''+1 415 555 0117'') = PStr ''+14155550117''"
proof (intro conjI impI)
  show "normalize_value ''phone'' (normalize_value ''phone'' v) = normalize_value ''phone'' v"
  proof (cases v)
    case (PStr s)
    then show ?thesis
      by (simp add: normalize_phone_str Let_def PHONE_RE_sub_idem PHONE_RE_sub_plus
          PHONE_RE_sub_Nil)
  qed (simp_all add: normalize_value_def)
next
  assume "list_all is_digit ds"
  then have "PHONE_RE_sub ds = ds"
    by (simp add: PHONE_RE_sub_def list_all_iff)
  then show "normalize_value ''phone'' (PStr (CHR ''+'' # ds)) = PStr (CHR ''+'' # ds)"
    by (simp add: normalize_phone_str PHONE_RE_sub_plus)
next
  show "normalize_value ''phone'' (PStr ''+1 415 555 0117'') = PStr ''+14155550117''"
    by code_simp
qed

theorem phone_idempotent_witness:
  "list_all is_digit ''14155550117'' \<and>
   normalize_value ''phone'' (PStr ''+14155550117'') = PStr ''+14155550117'' \<and>
   normalize_value ''phone'' (normalize_value ''phone'' (PStr ''+1 415 555 0117''))
     = normalize_value ''phone'' (PStr ''+1 415 555 0117'')"
proof -
  have h: "list_all is_digit ''14155550117''" by code_simp
  show ?thesis
    using h phone_idempotent [of "PStr ''+1 415 555 0117''" "''14155550117''"] by simp
qed

lemma first_alias_find:
  "first_alias as d =
     (case find (\<lambda>a. d a \<noteq> None) as of None \<Rightarrow> PNone | Some a \<Rightarrow> the (d a))"
  by (induction as) (auto split: option.splits)

text \<open>
  Claim C4. \<^verbatim>\<open>_best_data_value\<close> returns \<open>d[k]\<close> when \<open>k\<close> is a key of \<open>d\<close>; otherwise
  the value of the first alias of \<open>k\<close>, in listed order, that is a key of \<open>d\<close>; otherwise
  \<^verbatim>\<open>None\<close>. Only \<^verbatim>\<open>postal_code\<close> and \<^verbatim>\<open>address_line1\<close> have aliases. With both the
  canonical key and an alias present the canonical key's value wins:
  \<^verbatim>\<open>{postal_code: "94103", zip: "00000"}\<close> resolves to \<^verbatim>\<open>"94103"\<close>.
\<close>

theorem best_data_value_resolution:
  "best_data_value k d =
     (case d k of
        Some v \<Rightarrow> v
      | None \<Rightarrow>
          (case find (\<lambda>a. d a \<noteq> None) (aliases_of k) of
             None \<Rightarrow> PNone
           | Some a \<Rightarrow> the (d a))) \<and>
   aliases_of ''postal_code'' = [''zip'', ''zipcode'', ''post_code''] \<and>
   aliases_of ''address_line1'' = [''address1'', ''street'', ''line1''] \<and>
   (k \<noteq> ''postal_code'' \<and> k \<noteq> ''address_line1'' \<longrightarrow> aliases_of k = []) \<and>
   best_data_value ''postal_code''
     [''postal_code'' \<mapsto> PStr ''94103'', ''zip'' \<mapsto> PStr ''00000''] = PStr ''94103''"
  by (simp add: best_data_value_def first_alias_find aliases_of_def ALIASES_def
      split: option.split)

theorem best_data_value_resolution_witness:
  "best_data_value ''postal_code'' [''zipcode'' \<mapsto> PStr ''1'', ''zip'' \<mapsto> PStr ''2''] = PStr ''2'' \<and>
   best_data_value ''city'' [''zip'' \<mapsto> PStr ''2''] = PNone \<and>
   aliases_of ''city'' = []"
  using best_data_value_resolution [of "''postal_code''" "[''zipcode'' \<mapsto> PStr ''1'', ''zip'' \<mapsto> PStr ''2'']"]
    best_data_value_resolution [of "''city''" "[''zip'' \<mapsto> PStr ''2'']"]
  by (simp add: aliases_of_def ALIASES_def)

section \<open>Fill dispatch\<close>

lemma rule_key_nonempty: "rule_key t = Some k \<Longrightarrow> k \<noteq> []"
  by (auto simp: rule_key_def split: if_splits)

lemma guess_nonempty: "guess_canonical_key pr t = Some k \<Longrightarrow> k \<noteq> []"
proof (cases "rule_key (lower t)")
  case None
  assume "guess_canonical_key pr t = Some k"
  with None have "fuzzy_key pr (lower t) = Some k" by (simp add: guess_canonical_key_def)
  from fuzzy_key_Some [OF this] obtain i where "i < length comparands" "k = fst (comparands ! i)"
    by blast
  then have "comparands ! i \<in> set comparands" "k = fst (comparands ! i)" by simp_all
  with comparands_nonempty show ?thesis by (auto simp: list_all_iff)
next
  case (Some k')
  assume "guess_canonical_key pr t = Some k"
  with Some have "k = k'" by (simp add: guess_canonical_key_def)
  with rule_key_nonempty [OF Some] show ?thesis by simp
qed

lemma first_alias_absent: "\<forall>a \<in> set as. d a = None \<Longrightarrow> first_alias as d = PNone"
  by (induction as) auto

lemma best_data_value_absent:
  "d k = None \<Longrightarrow> \<forall>a \<in> set (aliases_of k). d a = None \<Longrightarrow> best_data_value k d = PNone"
  by (simp add: best_data_value_def first_alias_absent)

lemma best_data_value_empty: "best_data_value k Map.empty = PNone"
  by (simp add: best_data_value_absent)

lemma fill_one_no_key:
  "guess_canonical_key pr (meta_text m) = None \<Longrightarrow>
   fill_one pr d (f, el, m) (logs, w) = (field_match m None None False, logs, w)"
  by (simp add: fill_one_def field_match_def)

lemma fill_one_no_value:
  "guess_canonical_key pr (meta_text m) = Some k \<Longrightarrow>
   best_data_value k d = PNone \<or> best_data_value k d = PStr [] \<Longrightarrow>
   fill_one pr d (f, el, m) (logs, w) = (field_match m (Some k) None False, logs, w)"
  by (auto simp: fill_one_def field_match_def Let_def)

lemma fill_one_attempt:
  assumes "guess_canonical_key pr (meta_text m) = Some k"
    and "best_data_value k d = v" and "v \<noteq> PNone" and "v \<noteq> PStr []"
  shows "fill_one pr d (f, el, m) (logs, w) =
     (case dispatch el (meta_tag m) (lower (meta_type m)) (normalize_value k v) w of
        Done w' \<Rightarrow> (field_match m (Some k) (Some (py_str (normalize_value k v))) True, logs, w')
      | Raised e w' \<Rightarrow> (field_match m (Some k) None False, logs @ [''Fill error: '' @ e], w'))"
  using assms guess_nonempty [OF assms(1)]
  by (simp add: fill_one_def field_match_def Let_def split: outcome.split)

lemma fill_one_cases:
  "(\<exists>canon. fill_one pr d (f, el, m) (logs, w) = (field_match m canon None False, logs, w)) \<or>
   (\<exists>k v w'. fill_one pr d (f, el, m) (logs, w) = (field_match m (Some k) (Some v) True, logs, w')) \<or>
   (\<exists>k e w'. fill_one pr d (f, el, m) (logs, w) =
      (field_match m (Some k) None False, logs @ [''Fill error: '' @ e], w'))"
proof (cases "guess_canonical_key pr (meta_text m)")
  case None
  from fill_one_no_key [OF None, of d f el logs w] show ?thesis by blast
next
  case (Some k)
  show ?thesis
  proof (cases "best_data_value k d = PNone \<or> best_data_value k d = PStr []")
    case True
    from fill_one_no_value [OF Some True, of f el logs w] show ?thesis by blast
  next
    case False
    then have v: "best_data_value k d \<noteq> PNone" "best_data_value k d \<noteq> PStr []" by auto
    show ?thesis
      using fill_one_attempt [OF Some refl v, of f el logs w]
      by (cases "dispatch el (meta_tag m) (lower (meta_type m))
                   (normalize_value k (best_data_value k d)) w") auto
  qed
qed

lemma fill_one_shape:
  assumes "fill_one pr d (f, el, m) (logs, w) = (fm, logs', w')"
  shows "frame fm = meta_frame m \<and> tag fm = meta_tag m \<and> type fm = meta_type m \<and>
         label_text fm = meta_text m \<and> selector_preview fm = meta_selector_preview m \<and>
         canonical_key fm = guess_canonical_key pr (meta_text m)"
  using assms by (auto simp: fill_one_def Let_def split: prod.splits)

lemma fill_one_filled:
  assumes "fill_one pr d (f, el, m) (logs, w) = (fm, logs', w')" and "filled fm"
  shows "canonical_key fm \<noteq> None \<and> value_used fm \<noteq> None"
  using fill_one_cases [of pr d f el m logs w] assms by (auto simp: field_match_def)

lemma fill_discovered_shape:
  "fill_discovered pr items d logs w = (fms, logs', w') \<Longrightarrow>
   map (\<lambda>fm. (frame fm, tag fm, type fm, label_text fm, selector_preview fm, canonical_key fm)) fms =
   map (\<lambda>(f, el, m). (meta_frame m, meta_tag m, meta_type m, meta_text m,
          meta_selector_preview m, guess_canonical_key pr (meta_text m))) items"
proof (induction items arbitrary: logs w fms logs' w')
  case Nil
  then show ?case by simp
next
  case (Cons item items)
  obtain f el m where item: "item = (f, el, m)" by (cases item)
  obtain fm l1 w1 where one: "fill_one pr d (f, el, m) (logs, w) = (fm, l1, w1)"
    by (cases "fill_one pr d (f, el, m) (logs, w)")
  obtain rest l2 w2 where tl: "fill_discovered pr items d l1 w1 = (rest, l2, w2)"
    by (cases "fill_discovered pr items d l1 w1")
  from Cons.prems item one tl have fms: "fms = fm # rest" by simp
  from Cons.IH [OF tl] fill_one_shape [OF one] show ?case
    by (simp add: fms item)
qed

lemma fill_discovered_filled:
  "fill_discovered pr items d logs w = (fms, logs', w') \<Longrightarrow> fm \<in> set fms \<Longrightarrow> filled fm \<Longrightarrow>
   canonical_key fm \<noteq> None \<and> value_used fm \<noteq> None"
proof (induction items arbitrary: logs w fms logs' w')
  case Nil
  then show ?case by simp
next
  case (Cons item items)
  obtain f el m where item: "item = (f, el, m)" by (cases item)
  obtain fm1 l1 w1 where one: "fill_one pr d (f, el, m) (logs, w) = (fm1, l1, w1)"
    by (cases "fill_one pr d (f, el, m) (logs, w)")
  obtain rest l2 w2 where tl: "fill_discovered pr items d l1 w1 = (rest, l2, w2)"
    by (cases "fill_discovered pr items d l1 w1")
  from Cons.prems(1) item one tl have fms: "fms = fm1 # rest" by simp
  show ?case
  proof (cases "fm = fm1")
    case True
    with fill_one_filled [OF one] Cons.prems(3) show ?thesis by simp
  next
    case False
    with Cons.prems(2) fms have "fm \<in> set rest" by simp
    from Cons.IH [OF tl this Cons.prems(3)] show ?thesis .
  qed
qed

lemma fill_discovered_empty_data:
  "fill_discovered pr items Map.empty logs w = (fms, logs', w') \<Longrightarrow>
   (\<forall>fm \<in> set fms. \<not> filled fm \<and> value_used fm = None) \<and> logs' = logs \<and> w' = w"
proof (induction items arbitrary: fms logs' w')
  case Nil
  then show ?case by simp
next
  case (Cons item items)
  obtain f el m where item: "item = (f, el, m)" by (cases item)
  have one: "fill_one pr Map.empty (f, el, m) (logs, w) =
      (field_match m (guess_canonical_key pr (meta_text m)) None False, logs, w)"
  proof (cases "guess_canonical_key pr (meta_text m)")
    case None
    then show ?thesis by (simp add: fill_one_no_key)
  next
    case (Some k)
    then show ?thesis by (simp add: fill_one_no_value best_data_value_empty)
  qed
  obtain rest l2 w2 where tl: "fill_discovered pr items Map.empty logs w = (rest, l2, w2)"
    by (cases "fill_discovered pr items Map.empty logs w")
  from Cons.prems item one tl
  have fms: "fms = field_match m (guess_canonical_key pr (meta_text m)) None False # rest"
    and st: "logs' = l2" "w' = w2" by simp_all
  from Cons.IH [OF tl] fms st show ?case by (simp add: field_match_def)
qed

lemma should_check: "(case normalize_value k v of PBool b \<Rightarrow> b | _ \<Rightarrow> True) = (v \<noteq> PBool False)"
  by (cases v) (auto simp: normalize_value_def Let_def)

lemma guess_email_meta: "guess_canonical_key pr (meta_text email_meta) = Some ''email''"
proof -
  have "rule_key (lower ''Email Address'') = Some ''email''" by code_simp
  then show ?thesis by (simp add: guess_canonical_key_def email_meta_def)
qed

lemma guess_terms_meta: "guess_canonical_key pr (meta_text terms_meta) = Some ''accept_tos''"
proof -
  have "rule_key (lower ''I agree to the Terms'') = Some ''accept_tos''" by code_simp
  then show ?thesis by (simp add: guess_canonical_key_def terms_meta_def)
qed

lemma guess_phone_meta: "guess_canonical_key pr (meta_text phone_meta) = Some ''phone''"
proof -
  have "rule_key (lower ''Phone'') = Some ''phone''" by code_simp
  then show ?thesis by (simp add: guess_canonical_key_def phone_meta_def)
qed

lemma lower_sample_types:
  "lower ''text'' = ''text''" "lower ''checkbox'' = ''checkbox''" "lower ''tel'' = ''tel''"
  by code_simp+

text \<open>
  Claim C5. For every sequence of discovered controls (the empty one included) and every
  data map, \<^verbatim>\<open>_fill_discovered\<close> returns one \<^verbatim>\<open>FieldMatch\<close> per control, in the
  order of the input: the records carry, position by position, the frame, tag, type, text
  and selector preview of the controls and the key inferred from the text. The function is
  total: the only calls that can raise are the driver calls inside the \<^verbatim>\<open>try\<close> block.
  When the fill action of a control raises \<open>e\<close>, its record has \<open>filled = False\<close> and no
  value, \<^verbatim>\<open>Fill error: e\<close> is appended to the logs, and the remaining controls are
  processed from the state the failure left.
\<close>

theorem fill_discovered_complete:
  "length (fst (fill_discovered pr items d logs w)) = length items \<and>
   map (\<lambda>fm. (frame fm, tag fm, type fm, label_text fm, selector_preview fm, canonical_key fm))
     (fst (fill_discovered pr items d logs w)) =
   map (\<lambda>(f, el, m). (meta_frame m, meta_tag m, meta_type m, meta_text m,
          meta_selector_preview m, guess_canonical_key pr (meta_text m))) items \<and>
   (\<forall>k e w1.
      guess_canonical_key pr (meta_text m) = Some k \<and>
      best_data_value k d \<noteq> PNone \<and> best_data_value k d \<noteq> PStr [] \<and>
      dispatch el (meta_tag m) (lower (meta_type m))
        (normalize_value k (best_data_value k d)) w = Raised e w1 \<longrightarrow>
      fill_discovered pr ((f, el, m) # items) d logs w =
        (field_match m (Some k) None False
           # fst (fill_discovered pr items d (logs @ [''Fill error: '' @ e]) w1),
         snd (fill_discovered pr items d (logs @ [''Fill error: '' @ e]) w1)))"
proof (intro conjI allI impI)
  obtain fms l1 w1 where r: "fill_discovered pr items d logs w = (fms, l1, w1)"
    by (cases "fill_discovered pr items d logs w")
  from fill_discovered_shape [OF r]
  show shape: "map (\<lambda>fm. (frame fm, tag fm, type fm, label_text fm, selector_preview fm,
                   canonical_key fm)) (fst (fill_discovered pr items d logs w)) =
     map (\<lambda>(f, el, m). (meta_frame m, meta_tag m, meta_type m, meta_text m,
            meta_selector_preview m, guess_canonical_key pr (meta_text m))) items"
    by (simp add: r)
  from arg_cong [OF shape, of length]
  show "length (fst (fill_discovered pr items d logs w)) = length items" by simp
next
  fix k e w1
  assume a: "guess_canonical_key pr (meta_text m) = Some k \<and>
      best_data_value k d \<noteq> PNone \<and> best_data_value k d \<noteq> PStr [] \<and>
      dispatch el (meta_tag m) (lower (meta_type m))
        (normalize_value k (best_data_value k d)) w = Raised e w1"
  then have one: "fill_one pr d (f, el, m) (logs, w) =
      (field_match m (Some k) None False, logs @ [''Fill error: '' @ e], w1)"
    using fill_one_attempt [of pr m k d "best_data_value k d" f el logs w] by simp
  show "fill_discovered pr ((f, el, m) # items) d logs w =
        (field_match m (Some k) None False
           # fst (fill_discovered pr items d (logs @ [''Fill error: '' @ e]) w1),
         snd (fill_discovered pr items d (logs @ [''Fill error: '' @ e]) w1))"
    by (simp add: one split: prod.split)
qed

theorem fill_discovered_complete_witness:
  "fill_discovered sample_scorer
     [((), failing_element, email_meta), ((), recording_element, email_meta)]
     [''email'' \<mapsto> PStr ''a@b.com''] [] [] =
   ([field_match email_meta (Some ''email'') None False,
     field_match email_meta (Some ''email'') (Some ''a@b.com'') True],
    [''Fill error: detached''], [Fill ''a@b.com''])"
proof -
  let ?d = "[''email'' \<mapsto> PStr ''a@b.com'']"
  have v: "best_data_value ''email'' ?d = PStr ''a@b.com''"
    by (simp add: best_data_value_def)
  have n: "normalize_value ''email'' (PStr ''a@b.com'') = PStr ''a@b.com''"
    by (simp add: normalize_value_def)
  have tg: "meta_tag email_meta = ''input''" "lower (meta_type email_meta) = ''text''"
    by (simp_all add: email_meta_def lower_sample_types)
  have fails: "dispatch failing_element (meta_tag email_meta) (lower (meta_type email_meta))
      (normalize_value ''email'' (best_data_value ''email'' ?d)) [] = Raised ''detached'' []"
    by (simp add: v n tg dispatch_def failing_element_def)
  have works: "dispatch recording_element (meta_tag email_meta) (lower (meta_type email_meta))
      (normalize_value ''email'' (PStr ''a@b.com'')) [] = Done [Fill ''a@b.com'']"
    by (simp add: n tg dispatch_def recording_element_def)
  have second: "fill_discovered sample_scorer [((), recording_element, email_meta)] ?d
      [''Fill error: detached''] [] =
      ([field_match email_meta (Some ''email'') (Some ''a@b.com'') True],
       [''Fill error: detached''], [Fill ''a@b.com''])"
    using fill_one_attempt [where pr = sample_scorer and m = email_meta and k = "''email''"
        and d = ?d and v = "PStr ''a@b.com''" and f = "()" and el = recording_element
        and logs = "[''Fill error: detached'']" and w = "[]", OF guess_email_meta v] works
    by (simp add: n)
  from fill_discovered_complete [where pr = sample_scorer
      and items = "[((), recording_element, email_meta)]" and d = ?d
      and logs = "[]" and w = "[]" and m = email_meta and el = failing_element and f = "()"]
  have "fill_discovered sample_scorer
      [((), failing_element, email_meta), ((), recording_element, email_meta)] ?d [] [] =
      (field_match email_meta (Some ''email'') None False
         # fst (fill_discovered sample_scorer [((), recording_element, email_meta)] ?d
                ([] @ [''Fill error: '' @ ''detached'']) []),
       snd (fill_discovered sample_scorer [((), recording_element, email_meta)] ?d
                ([] @ [''Fill error: '' @ ''detached'']) []))"
    using guess_email_meta [of sample_scorer] v fails by simp
  then show ?thesis using second by simp
qed

text \<open>
  Claim C6. In every record produced by \<^verbatim>\<open>_fill_discovered\<close>, \<open>filled\<close> implies that
  \<open>canonical_key\<close> and \<open>value_used\<close> are both set. The converse fails: a control whose
  inferred key \<open>k\<close> has no caller data (neither \<open>k\<close> nor an alias of \<open>k\<close> is a key of the
  data) yields \<open>filled = False\<close> and \<open>value_used = None\<close> with \<open>canonical_key = Some k\<close>.
\<close>

theorem filled_implies_key_and_value:
  "(\<forall>fm \<in> set (fst (fill_discovered pr items d logs w)).
      filled fm \<longrightarrow> canonical_key fm \<noteq> None \<and> value_used fm \<noteq> None) \<and>
   (guess_canonical_key pr (meta_text m) = Some k \<and> d k = None \<and>
      (\<forall>a \<in> set (aliases_of k). d a = None) \<longrightarrow>
    fill_one pr d (f, el, m) (logs, w) = (field_match m (Some k) None False, logs, w) \<and>
    \<not> filled (field_match m (Some k) None False) \<and>
    value_used (field_match m (Some k) None False) = None \<and>
    canonical_key (field_match m (Some k) None False) = Some k)"
proof (intro conjI ballI impI)
  fix fm assume fm: "fm \<in> set (fst (fill_discovered pr items d logs w))" and fl: "filled fm"
  obtain fms l1 w1 where r: "fill_discovered pr items d logs w = (fms, l1, w1)"
    by (cases "fill_discovered pr items d logs w")
  from fm r have "fm \<in> set fms" by simp
  from fill_discovered_filled [OF r this fl]
  show "canonical_key fm \<noteq> None" and "value_used fm \<noteq> None" by simp_all
next
  assume a: "guess_canonical_key pr (meta_text m) = Some k \<and> d k = None \<and>
      (\<forall>a \<in> set (aliases_of k). d a = None)"
  then have "best_data_value k d = PNone" by (simp add: best_data_value_absent)
  with a show "fill_one pr d (f, el, m) (logs, w) = (field_match m (Some k) None False, logs, w)"
    by (simp add: fill_one_no_value)
qed (simp_all add: field_match_def)

theorem filled_implies_key_and_value_witness:
  "fill_one sample_scorer [''phone'' \<mapsto> PStr ''+1''] ((), recording_element, email_meta) ([], []) =
     (field_match email_meta (Some ''email'') None False, [], []) \<and>
   canonical_key (field_match email_meta (Some ''email'') None False) = Some ''email'' \<and>
   \<not> filled (field_match email_meta (Some ''email'') None False) \<and>
   fst (fill_discovered sample_scorer [((), recording_element, email_meta)]
          [''email'' \<mapsto> PStr ''a@b.com''] [] []) =
     [field_match email_meta (Some ''email'') (Some ''a@b.com'') True] \<and>
   filled (field_match email_meta (Some ''email'') (Some ''a@b.com'') True) \<and>
   canonical_key (field_match email_meta (Some ''email'') (Some ''a@b.com'') True) \<noteq> None \<and>
   value_used (field_match email_meta (Some ''email'') (Some ''a@b.com'') True) \<noteq> None"
proof -
  let ?d = "[''email'' \<mapsto> PStr ''a@b.com'']"
  have al: "aliases_of ''email'' = []" by (simp add: aliases_of_def ALIASES_def)
  have v: "best_data_value ''email'' ?d = PStr ''a@b.com''"
    by (simp add: best_data_value_def)
  have n: "normalize_value ''email'' (PStr ''a@b.com'') = PStr ''a@b.com''"
    by (simp add: normalize_value_def)
  have tg: "meta_tag email_meta = ''input''" "lower (meta_type email_meta) = ''text''"
    by (simp_all add: email_meta_def lower_sample_types)
  have works: "dispatch recording_element (meta_tag email_meta) (lower (meta_type email_meta))
      (normalize_value ''email'' (PStr ''a@b.com'')) [] = Done [Fill ''a@b.com'']"
    by (simp add: n tg dispatch_def recording_element_def)
  have run: "fst (fill_discovered sample_scorer [((), recording_element, email_meta)] ?d [] []) =
      [field_match email_meta (Some ''email'') (Some ''a@b.com'') True]"
    using fill_one_attempt [where pr = sample_scorer and m = email_meta and k = "''email''"
        and d = ?d and v = "PStr ''a@b.com''" and f = "()" and el = recording_element
        and logs = "[]" and w = "[]", OF guess_email_meta v] works
    by (simp add: n)
  have f: "filled (field_match email_meta (Some ''email'') (Some ''a@b.com'') True)"
    by (simp add: field_match_def)
  from filled_implies_key_and_value [where pr = sample_scorer
      and items = "[((), recording_element, email_meta)]" and d = ?d
      and logs = "[]" and w = "[]" and m = email_meta and k = "''email''" and f = "()"
      and el = recording_element]
  have p1: "canonical_key (field_match email_meta (Some ''email'') (Some ''a@b.com'') True) \<noteq> None \<and>
        value_used (field_match email_meta (Some ''email'') (Some ''a@b.com'') True) \<noteq> None"
    using run f by simp
  from filled_implies_key_and_value [where pr = sample_scorer
      and items = "[]" and d = "[''phone'' \<mapsto> PStr ''+1'']"
      and logs = "[]" and w = "[]" and m = email_meta and k = "''email''" and f = "()"
      and el = recording_element]
  have p2: "fill_one sample_scorer [''phone'' \<mapsto> PStr ''+1''] ((), recording_element, email_meta)
        ([], []) = (field_match email_meta (Some ''email'') None False, [], []) \<and>
      \<not> filled (field_match email_meta (Some ''email'') None False) \<and>
      canonical_key (field_match email_meta (Some ''email'') None False) = Some ''email''"
    using guess_email_meta [of sample_scorer] al by simp
  from p1 p2 run f show ?thesis by simp
qed


text \<open>
  Claim C9. Run against the empty data map, as \<^verbatim>\<open>/discover\<close> does, matching returns only
  records with \<open>filled = False\<close> and \<open>value_used = None\<close>, one per control, for every
  sequence of controls; no driver call is made and nothing is logged.
\<close>

theorem empty_data_never_fills:
  "fill_discovered pr items Map.empty logs w = (fms, logs', w') \<Longrightarrow>
   (\<forall>fm \<in> set fms. \<not> filled fm \<and> value_used fm = None) \<and>
   length fms = length items \<and> logs' = logs \<and> w' = w"
proof -
  assume r: "fill_discovered pr items Map.empty logs w = (fms, logs', w')"
  from fill_discovered_shape [OF r, THEN arg_cong, of length]
  have "length fms = length items" by simp
  with fill_discovered_empty_data [OF r] show ?thesis by simp
qed

theorem empty_data_never_fills_witness:
  "fill_discovered sample_scorer
     [((), recording_element, email_meta), ((), failing_element, terms_meta)]
     Map.empty [] [] =
   ([field_match email_meta (Some ''email'') None False,
     field_match terms_meta (Some ''accept_tos'') None False], [], []) \<and>
   \<not> filled (field_match email_meta (Some ''email'') None False) \<and>
   value_used (field_match email_meta (Some ''email'') None False) = None \<and>
   \<not> filled (field_match terms_meta (Some ''accept_tos'') None False) \<and>
   value_used (field_match terms_meta (Some ''accept_tos'') None False) = None"
proof -
  have e: "fill_one sample_scorer Map.empty ((), recording_element, email_meta) ([], []) =
      (field_match email_meta (Some ''email'') None False, [], [])"
    using fill_one_no_value [where pr = sample_scorer and m = email_meta and k = "''email''"
        and d = Map.empty and f = "()" and el = recording_element and logs = "[]" and w = "[]",
        OF guess_email_meta]
    by (simp add: best_data_value_empty)
  have t: "fill_one sample_scorer Map.empty ((), failing_element, terms_meta) ([], []) =
      (field_match terms_meta (Some ''accept_tos'') None False, [], [])"
    using fill_one_no_value [where pr = sample_scorer and m = terms_meta
        and k = "''accept_tos''" and d = Map.empty and f = "()" and el = failing_element
        and logs = "[]" and w = "[]", OF guess_terms_meta]
    by (simp add: best_data_value_empty)
  have run: "fill_discovered sample_scorer
      [((), recording_element, email_meta), ((), failing_element, terms_meta)]
      Map.empty [] [] =
      ([field_match email_meta (Some ''email'') None False,
        field_match terms_meta (Some ''accept_tos'') None False], [], [])"
    by (simp add: e t)
  from empty_data_never_fills [OF run] run show ?thesis by simp
qed

text \<open>
  Claim C7. For a control of type \<^verbatim>\<open>checkbox\<close> or \<^verbatim>\<open>radio\<close> (an element that is not a
  \<^verbatim>\<open>select\<close>, whose lowered type is one of the two) with an inferred key and a resolved
  value that is neither \<^verbatim>\<open>None\<close> nor \<^verbatim>\<open>""\<close>, the one driver call made is
  \<^verbatim>\<open>uncheck\<close> when the value is the boolean \<^verbatim>\<open>False\<close> and \<^verbatim>\<open>check\<close> for every other
  value, boolean or not. When the call returns, the record has \<open>filled = True\<close> and the
  value's string form; when it raises, the failure is logged as in claim C5.
\<close>

theorem checkbox_dispatch:
  assumes "meta_tag m \<noteq> ''select''"
    and "lower (meta_type m) = ''checkbox'' \<or> lower (meta_type m) = ''radio''"
    and "guess_canonical_key pr (meta_text m) = Some k"
    and "best_data_value k d = v" and "v \<noteq> PNone" and "v \<noteq> PStr []"
  shows "fill_one pr d (f, el, m) (logs, w) =
     (case el (if v = PBool False then Uncheck else Check) w of
        Done w' \<Rightarrow>
          (field_match m (Some k) (Some (py_str (normalize_value k v))) True, logs, w')
      | Raised e w' \<Rightarrow>
          (field_match m (Some k) None False, logs @ [''Fill error: '' @ e], w'))"
proof -
  have "dispatch el (meta_tag m) (lower (meta_type m)) (normalize_value k v) w =
      el (if v = PBool False then Uncheck else Check) w"
    using assms(1,2) by (auto simp: dispatch_def Let_def should_check)
  with fill_one_attempt [OF assms(3-6), of f el logs w] show ?thesis by simp
qed

theorem checkbox_dispatch_witness:
  "fill_one sample_scorer [''accept_tos'' \<mapsto> PBool True]
     ((), recording_element, terms_meta) ([], []) =
     (field_match terms_meta (Some ''accept_tos'') (Some ''True'') True, [], [Check]) \<and>
   fill_one sample_scorer [''accept_tos'' \<mapsto> PBool False]
     ((), recording_element, terms_meta) ([], []) =
     (field_match terms_meta (Some ''accept_tos'') (Some ''False'') True, [], [Uncheck]) \<and>
   fill_one sample_scorer [''accept_tos'' \<mapsto> PStr ''yes'']
     ((), recording_element, terms_meta) ([], []) =
     (field_match terms_meta (Some ''accept_tos'') (Some ''yes'') True, [], [Check])"
proof -
  have tg: "meta_tag terms_meta \<noteq> ''select''"
    "lower (meta_type terms_meta) = ''checkbox'' \<or> lower (meta_type terms_meta) = ''radio''"
    by (simp_all add: terms_meta_def lower_sample_types)
  have v: "best_data_value ''accept_tos'' [''accept_tos'' \<mapsto> x] = x" for x
    by (simp add: best_data_value_def)
  have n: "normalize_value ''accept_tos'' x = x" for x
    by (cases x) (simp_all add: normalize_value_def)
  from checkbox_dispatch [where pr = sample_scorer and m = terms_meta and k = "''accept_tos''"
      and d = "[''accept_tos'' \<mapsto> PBool True]" and v = "PBool True" and f = "()"
      and el = recording_element and logs = "[]" and w = "[]", OF tg guess_terms_meta v]
  have a: "fill_one sample_scorer [''accept_tos'' \<mapsto> PBool True]
      ((), recording_element, terms_meta) ([], []) =
      (field_match terms_meta (Some ''accept_tos'') (Some ''True'') True, [], [Check])"
    by (simp add: n recording_element_def)
  from checkbox_dispatch [where pr = sample_scorer and m = terms_meta and k = "''accept_tos''"
      and d = "[''accept_tos'' \<mapsto> PBool False]" and v = "PBool False" and f = "()"
      and el = recording_element and logs = "[]" and w = "[]", OF tg guess_terms_meta v]
  have b: "fill_one sample_scorer [''accept_tos'' \<mapsto> PBool False]
      ((), recording_element, terms_meta) ([], []) =
      (field_match terms_meta (Some ''accept_tos'') (Some ''False'') True, [], [Uncheck])"
    by (simp add: n recording_element_def)
  from checkbox_dispatch [where pr = sample_scorer and m = terms_meta and k = "''accept_tos''"
      and d = "[''accept_tos'' \<mapsto> PStr ''yes'']" and v = "PStr ''yes''" and f = "()"
      and el = recording_element and logs = "[]" and w = "[]", OF tg guess_terms_meta v]
  have c: "fill_one sample_scorer [''accept_tos'' \<mapsto> PStr ''yes'']
      ((), recording_element, terms_meta) ([], []) =
      (field_match terms_meta (Some ''accept_tos'') (Some ''yes'') True, [], [Check])"
    by (simp add: n recording_element_def)
  from a b c show ?thesis by simp
qed

text \<open>
  Claim C10. The guard on the value is evaluated before normalization: for a text control
  inferred as \<^verbatim>\<open>phone\<close> whose data value is a non-empty string without digits and
  without \<open>+\<close>, the value normalizes to the empty string, the driver call is
  \<^verbatim>\<open>fill("")\<close>, and when it returns the record has \<open>filled = True\<close> and
  \<open>value_used = ""\<close>: the fill is not skipped.
\<close>

theorem phone_without_digits_fills_empty:
  assumes "guess_canonical_key pr (meta_text m) = Some ''phone''"
    and "d ''phone'' = Some (PStr s)" and "s \<noteq> []"
    and "\<forall>c \<in> set s. \<not> is_digit c \<and> c \<noteq> CHR ''+''"
    and "meta_tag m \<noteq> ''select''"
    and "lower (meta_type m) \<noteq> ''checkbox''" and "lower (meta_type m) \<noteq> ''radio''"
  shows "normalize_value ''phone'' (PStr s) = PStr [] \<and>
     fill_one pr d (f, el, m) (logs, w) =
     (case el (Fill []) w of
        Done w' \<Rightarrow> (field_match m (Some ''phone'') (Some []) True, logs, w')
      | Raised e w' \<Rightarrow>
          (field_match m (Some ''phone'') None False, logs @ [''Fill error: '' @ e], w'))"
proof -
  have v: "best_data_value ''phone'' d = PStr s"
    using assms(2) by (simp add: best_data_value_def)
  have "PHONE_RE_sub s = []"
    using assms(4) by (auto simp: PHONE_RE_sub_def filter_empty_conv)
  then have n: "normalize_value ''phone'' (PStr s) = PStr []"
    by (simp add: normalize_phone_str)
  have "dispatch el (meta_tag m) (lower (meta_type m)) (PStr []) w = el (Fill []) w"
    using assms(5-7) by (simp add: dispatch_def)
  with fill_one_attempt [OF assms(1) v, of f el logs w] assms(3) n show ?thesis
    by (simp split: outcome.split)
qed

theorem phone_without_digits_fills_empty_witness:
  "normalize_value ''phone'' (PStr ''abc'') = PStr [] \<and>
   fill_one sample_scorer [''phone'' \<mapsto> PStr ''abc'']
     ((), recording_element, phone_meta) ([], []) =
     (field_match phone_meta (Some ''phone'') (Some []) True, [], [Fill []])"
proof -
  have nd: "\<forall>c \<in> set ''abc''. \<not> is_digit c \<and> c \<noteq> CHR ''+''"
  proof -
    have "list_all (\<lambda>c. \<not> is_digit c \<and> c \<noteq> CHR ''+'') ''abc''" by code_simp
    then show ?thesis by (simp add: list_all_iff)
  qed
  have tg: "meta_tag phone_meta \<noteq> ''select''" "lower (meta_type phone_meta) \<noteq> ''checkbox''"
    "lower (meta_type phone_meta) \<noteq> ''radio''"
    by (simp_all add: phone_meta_def lower_sample_types)
  from phone_without_digits_fills_empty [where pr = sample_scorer and m = phone_meta
      and d = "[''phone'' \<mapsto> PStr ''abc'']" and s = "''abc''" and f = "()"
      and el = recording_element and logs = "[]" and w = "[]", OF guess_phone_meta _ _ nd tg]
  show ?thesis by (simp add: recording_element_def)
qed

end
